theory Spec2Isabelle
  imports Main "HOL-Library.Word" "HOL-Library.Stream"
begin

unbundle bit_operations_syntax

section \<open>Data model\<close>

text \<open>
  The program is \<^verbatim>\<open>upload_image.py\<close>: a proof-of-work client. Python's \<^verbatim>\<open>bytes\<close>
  are lists of 8-bit words, Python's \<^verbatim>\<open>int\<close> is \<^typ>\<open>int\<close>, \<^verbatim>\<open>str\<close> is
  \<^typ>\<open>string\<close>. Every exception the code can raise is a value of \<open>py_error\<close>; a
  computation that may raise returns a sum with the error on the left, and one that may
  also run forever returns an option of it (\<open>None\<close>: it never returns).
\<close>

type_synonym byte = "8 word"

datatype py_error =
    IndexError
  | ValueError
  | OSError
  | RequestException
  | HTTPError
  | SystemExit int

text \<open>
  \<^verbatim>\<open>except Exception\<close> catches every error but \<^verbatim>\<open>SystemExit\<close>, which derives from
  \<^verbatim>\<open>BaseException\<close> only.
\<close>

fun is_Exception :: "py_error \<Rightarrow> bool" where
  "is_Exception (SystemExit c) = False"
| "is_Exception e = True"

subsection \<open>Library operations on bytes and strings\<close>

text \<open>\<^verbatim>\<open>range(k)\<close>: the integers from 0 below \<open>k\<close>, none when \<open>k \<le> 0\<close>.\<close>

definition py_range :: "int \<Rightarrow> int list" where
  "py_range k = [0..k - 1]"

text \<open>
  \<^verbatim>\<open>bs[i]\<close> on a bytes object: an integer in 0..255; a negative index counts from the end;
  out of range raises \<^verbatim>\<open>IndexError\<close>.
\<close>

definition getitem :: "byte list \<Rightarrow> int \<Rightarrow> py_error + int" where
  "getitem bs i =
     (let len = int (length bs); j = (if i < 0 then len + i else i)
      in if 0 \<le> j \<and> j < len then Inr (uint (bs ! nat j)) else Inl IndexError)"

text \<open>\<^verbatim>\<open>bytes.hex()\<close>: two lowercase hexadecimal digits per byte.\<close>

definition hexdigit :: "nat \<Rightarrow> char" where
  "hexdigit d = ''0123456789abcdef'' ! d"

fun hex :: "byte list \<Rightarrow> string" where
  "hex [] = []"
| "hex (b # bs) = hexdigit (unat b div 16) # hexdigit (unat b mod 16) # hex bs"

text \<open>
  \<^verbatim>\<open>bytes.fromhex(s)\<close>: ASCII whitespace is skipped between bytes; each byte is two
  adjacent hexadecimal digits of either case; anything else raises \<^verbatim>\<open>ValueError\<close>.
\<close>

definition isspace :: "char \<Rightarrow> bool" where
  "isspace c = ((of_char c :: nat) \<in> {9, 10, 11, 12, 13, 32})"

definition hexval :: "char \<Rightarrow> nat option" where
  "hexval c =
     (let k = (of_char c :: nat)
      in if 48 \<le> k \<and> k \<le> 57 then Some (k - 48)
         else if 97 \<le> k \<and> k \<le> 102 then Some (k - 87)
         else if 65 \<le> k \<and> k \<le> 70 then Some (k - 55)
         else None)"

fun fromhex :: "string \<Rightarrow> py_error + byte list" where
  "fromhex [] = Inr []"
| "fromhex [c] = (if isspace c then Inr [] else Inl ValueError)"
| "fromhex (c # d # cs) =
     (if isspace c then fromhex (d # cs)
      else case hexval c of
             None \<Rightarrow> Inl ValueError
           | Some hi \<Rightarrow>
               (case hexval d of
                  None \<Rightarrow> Inl ValueError
                | Some lo \<Rightarrow>
                    (case fromhex cs of
                       Inl e \<Rightarrow> Inl e
                     | Inr bs \<Rightarrow> Inr (of_nat (16 * hi + lo) # bs))))"

section \<open>The proof-of-work solver\<close>

subsection \<open>The difficulty predicate\<close>

text \<open>
  \<^verbatim>\<open>is_valid_hash\<close>, first loop:
  \<^verbatim>\<open>for i in range(full_bytes): if hash_bytes[i] != 0: return False\<close>.
  The result \<open>Inr False\<close> is the early \<^verbatim>\<open>return False\<close>, \<open>Inr True\<close> is the loop
  running to its end, and \<open>Inl\<close> is the \<^verbatim>\<open>IndexError\<close> of an index past the digest.
\<close>

fun full_bytes_loop :: "byte list \<Rightarrow> int list \<Rightarrow> py_error + bool" where
  "full_bytes_loop hash_bytes [] = Inr True"
| "full_bytes_loop hash_bytes (i # is) =
     (case getitem hash_bytes i of
        Inl e \<Rightarrow> Inl e
      | Inr b \<Rightarrow> if b \<noteq> 0 then Inr False else full_bytes_loop hash_bytes is)"

definition is_valid_hash :: "byte list \<Rightarrow> int \<Rightarrow> py_error + bool" where
  "is_valid_hash hash_bytes n =
     (let full_bytes = n div 8 in
      case full_bytes_loop hash_bytes (py_range full_bytes) of
        Inl e \<Rightarrow> Inl e
      | Inr False \<Rightarrow> Inr False
      | Inr True \<Rightarrow>
          (let remaining_bits = n mod 8 in
           if remaining_bits > 0 then
             (let mask = (push_bit (nat (8 - remaining_bits)) (255::int)) AND 255 in
              case getitem hash_bytes full_bytes of
                Inl e \<Rightarrow> Inl e
              | Inr b \<Rightarrow> Inr (b AND mask = 0))
           else Inr True))"

text \<open>
  The specification's reading of the predicate: the first \<open>n\<close> bits of the digest exist
  and are zero, taking the bits of each byte from the most significant one down, and the
  bytes in order.
\<close>

definition leading_zero_bits :: "byte list \<Rightarrow> nat \<Rightarrow> bool" where
  "leading_zero_bits h n =
     (\<forall>k\<in>{..<n}. k div 8 < length h \<and> \<not> bit (h ! (k div 8)) (7 - k mod 8))"

subsection \<open>A search worker\<close>

text \<open>
  \<^verbatim>\<open>worker\<close>: the \<^verbatim>\<open>while True\<close> loop. The digest function
  (\<^verbatim>\<open>hashlib.sha256(...).digest()\<close>) is a parameter. The stream \<open>rnd\<close> is what the
  successive calls \<^verbatim>\<open>random.randint(0, 255)\<close> of this worker return, 64 of them for each
  candidate. The loop has no other exit than a valid candidate or an exception.
\<close>

partial_function (option) worker_loop ::
  "(byte list \<Rightarrow> byte list) \<Rightarrow> string \<Rightarrow> int \<Rightarrow> byte stream \<Rightarrow> nat
     \<Rightarrow> (py_error + bool \<times> string) option" where
  "worker_loop digest pref n rnd attempts =
     (let suff = hex (stake 64 rnd);
          combined = pref @ suff
      in case fromhex combined of
           Inl e \<Rightarrow> Some (Inl e)
         | Inr bs \<Rightarrow>
             (case is_valid_hash (digest bs) n of
                Inl e \<Rightarrow> Some (Inl e)
              | Inr ok \<Rightarrow>
                  if ok then Some (Inr (True, suff))
                  else worker_loop digest pref n (sdrop 64 rnd) (attempts + 1)))"

text \<open>
  The worker's index goes into the seed of the generator and into the progress messages
  only; \<open>rnd\<close> is the stream the seeded generator yields.
\<close>

definition worker ::
  "(byte list \<Rightarrow> byte list) \<Rightarrow> string \<Rightarrow> int \<Rightarrow> int \<Rightarrow> byte stream
     \<Rightarrow> (py_error + bool \<times> string) option" where
  "worker digest pref n worker_id rnd = worker_loop digest pref n rnd 0"

subsection \<open>The pool\<close>

text \<open>
  \<^verbatim>\<open>min(32, (os.cpu_count() or 5) - 1)\<close>; \<^verbatim>\<open>os.cpu_count()\<close> is \<^verbatim>\<open>None\<close> or a
  number, and \<^verbatim>\<open>or\<close> replaces \<^verbatim>\<open>None\<close> and 0 by 5.
\<close>

definition num_workers :: "nat option \<Rightarrow> int" where
  "num_workers cpu_count =
     min 32 ((case cpu_count of None \<Rightarrow> 5 | Some c \<Rightarrow> if c = 0 then 5 else int c) - 1)"

text \<open>
  The loop over \<^verbatim>\<open>as_completed(futures)\<close>: \<^verbatim>\<open>future.result()\<close> raises what the worker
  raised; the first successful result is returned; after the loop comes
  \<^verbatim>\<open>return ""\<close>.
\<close>

fun first_success :: "(py_error + bool \<times> string) list \<Rightarrow> py_error + string" where
  "first_success [] = Inr []"
| "first_success (Inl e # fs) = Inl e"
| "first_success (Inr (success, suff) # fs) =
     (if success then Inr suff else first_success fs)"

text \<open>
  \<open>completion\<close> is the order in which the futures complete: a list of their indices.
\<close>

definition schedule :: "nat list \<Rightarrow> nat \<Rightarrow> bool" where
  "schedule completion w = (distinct completion \<and> set completion = {..<w})"

text \<open>
  \<^verbatim>\<open>find_suffix\<close>. The executor is left through its \<^verbatim>\<open>with\<close> block, which joins every
  worker thread (\<^verbatim>\<open>shutdown(wait=True)\<close>): the call returns, or raises, only once all
  workers have ended. \<open>randoms i\<close> is the stream of random bytes worker \<open>i\<close> sees.
\<close>

definition find_suffix ::
  "(byte list \<Rightarrow> byte list) \<Rightarrow> nat option \<Rightarrow> (int \<Rightarrow> byte stream) \<Rightarrow> nat list
     \<Rightarrow> string \<Rightarrow> int \<Rightarrow> string \<Rightarrow> (py_error + string) option" where
  "find_suffix digest cpu_count randoms completion pref n task_id =
     (let futures = map (\<lambda>i. worker digest pref n i (randoms i)) (py_range (num_workers cpu_count))
      in if None \<in> set futures then None
         else Some (first_success (map (\<lambda>k. the (futures ! k)) completion)))"

text \<open>
  What a worker can end with, for the proofs: \<^verbatim>\<open>ValueError\<close> from a prefix that is not
  hexadecimal, \<^verbatim>\<open>IndexError\<close> from the predicate, or a candidate of 64 bytes that the
  predicate accepted.
\<close>

definition worker_outcome ::
  "(byte list \<Rightarrow> byte list) \<Rightarrow> string \<Rightarrow> int \<Rightarrow> (py_error + bool \<times> string) \<Rightarrow> bool" where
  "worker_outcome digest pref n r \<longleftrightarrow>
     (r = Inl ValueError \<and> fromhex pref = Inl ValueError) \<or>
     (\<exists>pb bs. fromhex pref = Inr pb \<and> length bs = 64 \<and>
        ((r = Inl IndexError \<and> is_valid_hash (digest (pb @ bs)) n = Inl IndexError) \<or>
         (r = Inr (True, hex bs) \<and> is_valid_hash (digest (pb @ bs)) n = Inr True)))"

section \<open>Properties of the library operations\<close>

lemma getitem_nonneg:
  "0 \<le> i \<Longrightarrow>
     getitem bs i = (if nat i < length bs then Inr (uint (bs ! nat i)) else Inl IndexError)"
  by (auto simp: getitem_def Let_def)

lemma set_py_range: "set (py_range k) = {i. 0 \<le> i \<and> i < k}"
  by (auto simp: py_range_def)

lemma full_bytes_loop_True:
  "full_bytes_loop h js = Inr True \<longleftrightarrow> (\<forall>i\<in>set js. getitem h i = Inr 0)"
  by (induction js) (auto split: sum.splits)

lemma is_valid_hash_True_getitem:
  "is_valid_hash h n = Inr True \<longleftrightarrow>
     (\<forall>i\<in>set (py_range (n div 8)). getitem h i = Inr 0) \<and>
     (0 < n mod 8 \<longrightarrow>
        (\<exists>b. getitem h (n div 8) = Inr b \<and>
             b AND ((push_bit (nat (8 - n mod 8)) (255::int)) AND 255) = 0))"
proof (cases "full_bytes_loop h (py_range (n div 8))")
  case (Inl e)
  then have "is_valid_hash h n = Inl e" by (simp add: is_valid_hash_def)
  moreover from Inl have "\<not> (\<forall>i\<in>set (py_range (n div 8)). getitem h i = Inr 0)"
    using full_bytes_loop_True [of h "py_range (n div 8)"] by simp
  ultimately show ?thesis by simp
next
  case (Inr ok)
  show ?thesis
  proof (cases ok)
    case False
    with Inr have "is_valid_hash h n = Inr False" by (simp add: is_valid_hash_def)
    moreover from Inr False have "\<not> (\<forall>i\<in>set (py_range (n div 8)). getitem h i = Inr 0)"
      using full_bytes_loop_True [of h "py_range (n div 8)"] by simp
    ultimately show ?thesis by simp
  next
    case True
    with Inr have all0: "\<forall>i\<in>set (py_range (n div 8)). getitem h i = Inr 0"
      using full_bytes_loop_True [of h "py_range (n div 8)"] by simp
    from Inr True have "is_valid_hash h n =
        (if 0 < n mod 8 then
           (case getitem h (n div 8) of Inl e \<Rightarrow> Inl e
            | Inr b \<Rightarrow> Inr (b AND ((push_bit (nat (8 - n mod 8)) (255::int)) AND 255) = 0))
         else Inr True)"
      by (simp add: is_valid_hash_def Let_def)
    with all0 show ?thesis by (auto split: sum.splits)
  qed
qed

lemma getitem_zero_iff:
  "0 \<le> i \<Longrightarrow> getitem h i = Inr 0 \<longleftrightarrow> nat i < length h \<and> h ! nat i = 0"
  by (simp add: getitem_nonneg uint_0_iff)

lemma is_valid_hash_True_nat:
  assumes "0 \<le> n"
  shows "is_valid_hash h n = Inr True \<longleftrightarrow>
     (\<forall>i<nat (n div 8). i < length h \<and> h ! i = 0) \<and>
     (0 < n mod 8 \<longrightarrow> nat (n div 8) < length h \<and>
        uint (h ! nat (n div 8)) AND ((push_bit (nat (8 - n mod 8)) (255::int)) AND 255) = 0)"
proof -
  have fb: "0 \<le> n div 8" using assms by simp
  have A: "(\<forall>i\<in>set (py_range (n div 8)). getitem h i = Inr 0) \<longleftrightarrow>
           (\<forall>i<nat (n div 8). i < length h \<and> h ! i = 0)"
  proof
    assume a: "\<forall>i\<in>set (py_range (n div 8)). getitem h i = Inr 0"
    show "\<forall>i<nat (n div 8). i < length h \<and> h ! i = 0"
    proof (intro allI impI)
      fix i assume "i < nat (n div 8)"
      then have "int i \<in> set (py_range (n div 8))" by (simp add: set_py_range)
      with a have "getitem h (int i) = Inr 0" by blast
      then show "i < length h \<and> h ! i = 0" by (simp add: getitem_zero_iff)
    qed
  next
    assume a: "\<forall>i<nat (n div 8). i < length h \<and> h ! i = 0"
    show "\<forall>i\<in>set (py_range (n div 8)). getitem h i = Inr 0"
    proof
      fix i assume "i \<in> set (py_range (n div 8))"
      then have i: "0 \<le> i" "nat i < nat (n div 8)" by (auto simp: set_py_range)
      with a show "getitem h i = Inr 0" by (simp add: getitem_zero_iff)
    qed
  qed
  have B: "(\<exists>b. getitem h (n div 8) = Inr b \<and> b AND m = 0) \<longleftrightarrow>
           nat (n div 8) < length h \<and> uint (h ! nat (n div 8)) AND m = 0" for m
    using fb by (auto simp: getitem_nonneg)
  show ?thesis unfolding is_valid_hash_True_getitem A B ..
qed

lemma int255_mask: "(255::int) = mask 8"
  by (simp add: mask_eq_exp_minus_1)

lemma bit_top_mask:
  "bit ((push_bit s (255::int)) AND 255) m \<longleftrightarrow> s \<le> m \<and> m < 8"
  unfolding int255_mask by (auto simp: bit_and_iff bit_push_bit_iff bit_mask_iff)

lemma and_top_mask_zero:
  "(uint (b::byte) AND ((push_bit s (255::int)) AND 255) = 0) \<longleftrightarrow> (\<forall>m. s \<le> m \<and> m < 8 \<longrightarrow> \<not> bit b m)"
proof -
  have "(uint b AND ((push_bit s (255::int)) AND 255) = 0) \<longleftrightarrow>
        (\<forall>m. \<not> bit (uint b AND ((push_bit s (255::int)) AND 255)) m)"
    by (simp add: bit_eq_iff)
  also have "\<dots> \<longleftrightarrow> (\<forall>m. s \<le> m \<and> m < 8 \<longrightarrow> \<not> bit b m)"
  proof -
    have "bit (uint b AND ((push_bit s (255::int)) AND 255)) m \<longleftrightarrow> bit b m \<and> s \<le> m \<and> m < 8" for m
      using bit_top_mask [of s m] bit_and_iff [of "uint b" "(push_bit s (255::int)) AND 255" m]
      by (auto simp: bit_uint_iff)
    then show ?thesis by blast
  qed
  finally show ?thesis .
qed

lemma mask_cases:
  "0 < r \<Longrightarrow> r < 8 \<Longrightarrow> (uint (b::byte) AND ((push_bit (nat (8 - r)) (255::int)) AND 255) = 0) \<longleftrightarrow> (\<forall>j<nat r. \<not> bit b (7 - j))"
proof -
  assume r: "0 < r" "r < 8"
  have "(\<forall>m. nat (8 - r) \<le> m \<and> m < 8 \<longrightarrow> \<not> bit b m) \<longleftrightarrow> (\<forall>j<nat r. \<not> bit b (7 - j))"
  proof (intro iffI allI impI)
    fix j assume a: "\<forall>m. nat (8 - r) \<le> m \<and> m < 8 \<longrightarrow> \<not> bit b m" and "j < nat r"
    then have "nat (8 - r) \<le> 7 - j \<and> 7 - j < 8" using r by linarith
    with a show "\<not> bit b (7 - j)" by blast
  next
    fix m assume a: "\<forall>j<nat r. \<not> bit b (7 - j)" and m: "nat (8 - r) \<le> m \<and> m < 8"
    then have "7 - m < nat r" "7 - (7 - m) = m" using r by linarith+
    with a show "\<not> bit b m" by metis
  qed
  then show ?thesis by (simp add: and_top_mask_zero)
qed

lemma byte_zero_bits: "(b::byte) = 0 \<longleftrightarrow> (\<forall>j<8. \<not> bit b (7 - j))"
proof
  assume "b = 0" then show "\<forall>j<8. \<not> bit b (7 - j)" by simp
next
  assume a: "\<forall>j<8. \<not> bit b (7 - j)"
  show "b = 0"
  proof (rule bit_eqI)
    fix m assume "possible_bit TYPE(byte) m"
    then have "m < 8" by (simp add: possible_bit_word)
    then have "7 - m < 8" "7 - (7 - m) = m" by linarith+
    with a have "\<not> bit b m" by metis
    then show "bit b m \<longleftrightarrow> bit (0::byte) m" by simp
  qed
qed


lemma is_valid_hash_leading_zero_bits:
  assumes "0 \<le> n"
  shows "is_valid_hash h n = Inr True \<longleftrightarrow> leading_zero_bits h (nat n)"
proof -
  define q where "q = nat n div 8"
  define r where "r = nat n mod 8"
  have q: "nat (n div 8) = q" using assms by (simp add: q_def nat_div_distrib)
  have r: "n mod 8 = int r" using assms by (simp add: r_def zmod_int)
  have N: "nat n = 8 * q + r" by (simp add: q_def r_def)
  have r8: "r < 8" by (simp add: r_def)
  have mask: "0 < r \<Longrightarrow>
      (uint (h ! q) AND ((push_bit (nat (8 - int r)) (255::int)) AND 255) = 0) \<longleftrightarrow>
      (\<forall>j<r. \<not> bit (h ! q) (7 - j))"
    using mask_cases [of "int r" "h ! q"] r8 by simp
  have "is_valid_hash h n = Inr True \<longleftrightarrow>
     (\<forall>i<q. i < length h \<and> h ! i = 0) \<and>
     (0 < r \<longrightarrow> q < length h \<and> (\<forall>j<r. \<not> bit (h ! q) (7 - j)))"
    using is_valid_hash_True_nat [OF assms, of h] mask unfolding q r by auto
  also have "\<dots> \<longleftrightarrow> leading_zero_bits h (nat n)"
  proof
    assume a: "(\<forall>i<q. i < length h \<and> h ! i = 0) \<and>
               (0 < r \<longrightarrow> q < length h \<and> (\<forall>j<r. \<not> bit (h ! q) (7 - j)))"
    show "leading_zero_bits h (nat n)"
      unfolding leading_zero_bits_def
    proof
      fix k assume "k \<in> {..<nat n}"
      then have k: "k < 8 * q + r" using N by simp
      show "k div 8 < length h \<and> \<not> bit (h ! (k div 8)) (7 - k mod 8)"
      proof (cases "k div 8 < q")
        case True
        with a show ?thesis by simp
      next
        case False
        with k r8 have kq: "k div 8 = q" and kr: "k mod 8 < r" by presburger+
        then have "0 < r" by simp
        with a kq kr show ?thesis by simp
      qed
    qed
  next
    assume lz: "leading_zero_bits h (nat n)"
    then have b: "\<And>k. k < 8 * q + r \<Longrightarrow> k div 8 < length h \<and> \<not> bit (h ! (k div 8)) (7 - k mod 8)"
      unfolding leading_zero_bits_def N by simp
    have "i < length h \<and> h ! i = 0" if "i < q" for i
    proof -
      have "\<not> bit (h ! i) (7 - j)" if "j < 8" for j
        using b [of "8 * i + j"] that \<open>i < q\<close> by simp
      moreover have "i < length h" using b [of "8 * i"] \<open>i < q\<close> by simp
      ultimately show ?thesis by (simp add: byte_zero_bits)
    qed
    moreover have "q < length h \<and> (\<forall>j<r. \<not> bit (h ! q) (7 - j))" if "0 < r"
    proof -
      have "\<not> bit (h ! q) (7 - j)" if "j < r" for j
        using b [of "8 * q + j"] that r8 by simp
      moreover have "q < length h" using b [of "8 * q"] \<open>0 < r\<close> by simp
      ultimately show ?thesis by simp
    qed
    ultimately show "(\<forall>i<q. i < length h \<and> h ! i = 0) \<and>
               (0 < r \<longrightarrow> q < length h \<and> (\<forall>j<r. \<not> bit (h ! q) (7 - j)))"
      by blast
  qed
  finally show ?thesis .
qed

section \<open>The difficulty predicate\<close>

lemma is_valid_hash_8: "is_valid_hash (b0 # rest) 8 = Inr (b0 = 0)"
  by (simp add: is_valid_hash_def py_range_def getitem_def uint_0_iff)

lemma top3: "(uint (b::byte) AND 224 = 0) \<longleftrightarrow> drop_bit 5 b = 0"
proof -
  have m: "(224::int) = (push_bit 5 (255::int)) AND 255" by simp
  have "(uint b AND 224 = 0) \<longleftrightarrow> (\<forall>m. 5 \<le> m \<and> m < 8 \<longrightarrow> \<not> bit b m)"
    unfolding m by (rule and_top_mask_zero)
  also have "\<dots> \<longleftrightarrow> drop_bit 5 b = 0"
  proof
    assume a: "\<forall>m. 5 \<le> m \<and> m < 8 \<longrightarrow> \<not> bit b m"
    show "drop_bit 5 b = 0"
    proof (rule bit_eqI)
      fix k assume "possible_bit TYPE(byte) k"
      have "\<not> bit b (5 + k)"
      proof (cases "5 + k < 8")
        case True with a show ?thesis by simp
      next
        case False then show ?thesis by (auto dest: bit_imp_le_length)
      qed
      then show "bit (drop_bit 5 b) k \<longleftrightarrow> bit (0::byte) k" by (simp add: bit_drop_bit_eq)
    qed
  next
    assume z: "drop_bit 5 b = 0"
    show "\<forall>m. 5 \<le> m \<and> m < 8 \<longrightarrow> \<not> bit b m"
    proof (intro allI impI)
      fix m :: nat assume m: "5 \<le> m \<and> m < 8"
      have "bit (drop_bit 5 b) (m - 5) \<longleftrightarrow> bit b m" using m by (simp add: bit_drop_bit_eq)
      with z show "\<not> bit b m" by simp
    qed
  qed
  finally show ?thesis .
qed

lemma is_valid_hash_11:
  "is_valid_hash (b0 # b1 # rest) 11 = Inr (b0 = 0 \<and> drop_bit 5 b1 = 0)"
  using top3 [of b1]
  by (simp add: is_valid_hash_def py_range_def getitem_def uint_0_iff)

lemma is_valid_hash_True_explicit:
  "is_valid_hash h n = Inr True \<longleftrightarrow>
      (\<forall>i. 0 \<le> i \<and> i < n div 8 \<longrightarrow> getitem h i = Inr 0) \<and>
      (0 < n mod 8 \<longrightarrow>
         (\<exists>b. getitem h (n div 8) = Inr b \<and>
              b AND ((push_bit (nat (8 - n mod 8)) (255::int)) AND 255) = 0))"
  unfolding is_valid_hash_True_getitem set_py_range by simp

text \<open>
  Claim C2. \<^verbatim>\<open>is_valid_hash\<close> returns true exactly when every byte at the indices
  \<open>0 \<le> i < n div 8\<close> is zero and, when \<open>n mod 8 > 0\<close>, the byte at index \<open>n div 8\<close>
  has no bit in common with the mask \<^verbatim>\<open>(0xFF << (8 - n % 8)) & 0xFF\<close>; nothing else of
  the digest is read. The first conjunct says so with Python's indexing, for every integer
  \<open>n\<close>; the second with plain positions in the digest, for \<open>n \<ge> 0\<close>; the third bit by
  bit: the first \<open>n\<close> bits, most significant bit of each byte first, exist and are zero.
  At \<open>n = 8\<close> the result is whether byte 0 is zero, whatever follows; at \<open>n = 11\<close> it is
  whether byte 0 is zero and the top three bits of byte 1 are zero.
\<close>

theorem is_valid_hash_spec:
  "(is_valid_hash h n = Inr True \<longleftrightarrow>
      (\<forall>i. 0 \<le> i \<and> i < n div 8 \<longrightarrow> getitem h i = Inr 0) \<and>
      (0 < n mod 8 \<longrightarrow>
         (\<exists>b. getitem h (n div 8) = Inr b \<and>
              b AND ((push_bit (nat (8 - n mod 8)) (255::int)) AND 255) = 0))) \<and>
   (0 \<le> n \<longrightarrow>
      (is_valid_hash h n = Inr True \<longleftrightarrow>
         (\<forall>i<nat (n div 8). i < length h \<and> h ! i = 0) \<and>
         (0 < n mod 8 \<longrightarrow> nat (n div 8) < length h \<and>
            uint (h ! nat (n div 8)) AND ((push_bit (nat (8 - n mod 8)) (255::int)) AND 255) = 0))) \<and>
   (0 \<le> n \<longrightarrow>
      (is_valid_hash h n = Inr True \<longleftrightarrow>
         (\<forall>k<nat n. k div 8 < length h \<and> \<not> bit (h ! (k div 8)) (7 - k mod 8)))) \<and>
   is_valid_hash (b0 # rest) 8 = Inr (b0 = 0) \<and>
   is_valid_hash (c0 # c1 # rest') 11 = Inr (c0 = 0 \<and> drop_bit 5 c1 = 0)"
proof -
  have A: "0 \<le> n \<longrightarrow>
      (is_valid_hash h n = Inr True \<longleftrightarrow>
         (\<forall>k<nat n. k div 8 < length h \<and> \<not> bit (h ! (k div 8)) (7 - k mod 8)))"
    using is_valid_hash_leading_zero_bits [of n h] by (auto simp: leading_zero_bits_def)
  show ?thesis
    using is_valid_hash_True_explicit [of h n] is_valid_hash_True_nat [of n h] A
      is_valid_hash_8 [of b0 rest] is_valid_hash_11 [of c0 c1 rest']
    by blast
qed

theorem is_valid_hash_spec_witness:
  "is_valid_hash [0, 0, 31, 255] 19 = Inr True \<and>
   is_valid_hash [0, 255, 0] 16 \<noteq> Inr True \<and>
   is_valid_hash [0, 0] 17 \<noteq> Inr True \<and>
   is_valid_hash [0, 255] 8 = Inr True \<and>
   is_valid_hash [0, 32, 0] 11 = Inr False"
proof -
  have two: "(\<forall>i<2::nat. P i) \<longleftrightarrow> P 0 \<and> P 1" for P
    by (auto simp: numeral_2_eq_2 less_Suc_eq)
  have a: "is_valid_hash [0, 0, 31, 255] 19 = Inr True"
    using is_valid_hash_spec [of "[0, 0, 31, 255]" 19, THEN conjunct2, THEN conjunct1]
    by (simp add: two)
  have b: "is_valid_hash [0, 255, 0] 16 \<noteq> Inr True"
    using is_valid_hash_spec [of "[0, 255, 0]" 16, THEN conjunct2, THEN conjunct1]
    by (simp add: two)
  have c: "is_valid_hash [0, 0] 17 \<noteq> Inr True"
    using is_valid_hash_spec [of "[0, 0]" 17, THEN conjunct2, THEN conjunct1]
    by (simp add: two)
  have d: "is_valid_hash [0, 255] 8 = Inr True \<and> is_valid_hash [0, 32, 0] 11 = Inr False"
    using is_valid_hash_spec [of "[]" 0 0 "[255]" 0 32 "[0]"] by simp
  from a b c d show ?thesis by blast
qed

text \<open>
  Claim C8. The predicate is antitone in the difficulty: a digest accepted at \<open>n\<close> is
  accepted at every \<open>m\<close> with \<open>0 \<le> m \<le> n\<close>.
\<close>

theorem is_valid_hash_antitone:
  assumes "0 \<le> m" and "m \<le> n" and "is_valid_hash h n = Inr True"
  shows "is_valid_hash h m = Inr True"
proof -
  from assms have "leading_zero_bits h (nat n)"
    by (simp add: is_valid_hash_leading_zero_bits)
  with assms(1,2) have "leading_zero_bits h (nat m)"
    by (auto simp: leading_zero_bits_def)
  with assms(1) show ?thesis by (simp add: is_valid_hash_leading_zero_bits)
qed

theorem is_valid_hash_antitone_witness:
  "(0::int) \<le> 9 \<and> (9::int) \<le> 11 \<and> is_valid_hash [0, 31, 7] 11 = Inr True \<and>
   is_valid_hash [0, 31, 7] 9 = Inr True"
proof -
  have h: "is_valid_hash [0, 31, 7] 11 = Inr True"
    by (simp add: is_valid_hash_def py_range_def getitem_def)
  from is_valid_hash_antitone [of 9 11 "[0, 31, 7]"] h show ?thesis by simp
qed

section \<open>Hexadecimal encoding\<close>

lemma hexval_hexdigit: "d < 16 \<Longrightarrow> hexval (hexdigit d) = Some d \<and> \<not> isspace (hexdigit d)"
proof -
  assume "d < 16"
  then have "d = 0 \<or> d = 1 \<or> d = 2 \<or> d = 3 \<or> d = 4 \<or> d = 5 \<or> d = 6 \<or> d = 7 \<or>
      d = 8 \<or> d = 9 \<or> d = 10 \<or> d = 11 \<or> d = 12 \<or> d = 13 \<or> d = 14 \<or> d = 15"
    by arith
  then show ?thesis
    by (auto simp: hexdigit_def hexval_def isspace_def)
qed

lemma byte_nibbles: "(of_nat (16 * (unat b div 16) + unat b mod 16) :: byte) = b"
  by simp

lemma hex_digits:
  "hexval (hexdigit (unat (b::byte) div 16)) = Some (unat b div 16)"
  "hexval (hexdigit (unat (b::byte) mod 16)) = Some (unat b mod 16)"
  "\<not> isspace (hexdigit (unat (b::byte) div 16))"
  "\<not> isspace (hexdigit (unat (b::byte) mod 16))"
proof -
  have "unat b < 256" using unsigned_less [of b] by simp
  then have "unat b div 16 < 16" "unat b mod 16 < 16" by simp_all
  then show "hexval (hexdigit (unat (b::byte) div 16)) = Some (unat b div 16)"
  "hexval (hexdigit (unat (b::byte) mod 16)) = Some (unat b mod 16)"
  "\<not> isspace (hexdigit (unat (b::byte) div 16))"
  "\<not> isspace (hexdigit (unat (b::byte) mod 16))"
    using hexval_hexdigit by blast+
qed

lemma fromhex_hex: "fromhex (hex bs) = Inr bs"
  by (induction bs) (simp_all add: hex_digits)

lemma fromhex_odd:
  "hexval c = Some v \<Longrightarrow> \<not> isspace c \<Longrightarrow> fromhex (c # hex bs) = Inl ValueError"
proof (induction bs arbitrary: c v)
  case Nil
  then show ?case by simp
next
  case (Cons b bs)
  have "fromhex (hexdigit (unat b mod 16) # hex bs) = Inl ValueError"
    using Cons.IH [of "hexdigit (unat b mod 16)"] by (simp add: hex_digits)
  with Cons.prems show ?case by (simp add: hex_digits)
qed

lemma fromhex_space: "isspace c \<Longrightarrow> fromhex (c # cs) = fromhex cs"
  by (cases cs) simp_all

lemma fromhex_append_hex:
  "fromhex (p @ hex bs) = (case fromhex p of Inl e \<Rightarrow> Inl e | Inr pb \<Rightarrow> Inr (pb @ bs))"
proof (induction p rule: fromhex.induct)
  case 1
  then show ?case by (simp add: fromhex_hex)
next
  case (2 c)
  show ?case
  proof (cases "isspace c")
    case True
    then show ?thesis by (simp add: fromhex_space fromhex_hex)
  next
    case False
    show ?thesis
    proof (cases "hexval c")
      case None
      with False show ?thesis by (cases bs) simp_all
    next
      case (Some v)
      with False show ?thesis by (simp add: fromhex_odd)
    qed
  qed
next
  case (3 c d cs)
  then show ?case by (auto split: option.splits sum.splits)
qed

section \<open>The search loop\<close>

lemma fromhex_error: "fromhex s = Inl e \<Longrightarrow> e = ValueError"
  by (induction s rule: fromhex.induct) (auto split: if_splits option.splits sum.splits)

lemma getitem_error: "getitem h i = Inl e \<Longrightarrow> e = IndexError"
  by (auto simp: getitem_def Let_def split: if_splits)

lemma full_bytes_loop_error: "full_bytes_loop h js = Inl e \<Longrightarrow> e = IndexError"
  by (induction js) (auto split: sum.splits if_splits dest: getitem_error)

lemma is_valid_hash_error: "is_valid_hash h n = Inl e \<Longrightarrow> e = IndexError"
  by (auto simp: is_valid_hash_def Let_def split: sum.splits if_splits bool.splits
      dest: getitem_error full_bytes_loop_error)

lemma worker_loop_step:
  assumes IH: "\<And>rnd' a'. f digest pref n rnd' a' = Some r \<Longrightarrow> worker_outcome digest pref n r"
    and body: "(let suff = hex (stake 64 rnd); combined = pref @ suff
      in case fromhex combined of
           Inl e \<Rightarrow> Some (Inl e)
         | Inr bs \<Rightarrow>
             (case is_valid_hash (digest bs) n of
                Inl e \<Rightarrow> Some (Inl e)
              | Inr ok \<Rightarrow>
                  if ok then Some (Inr (True, suff))
                  else f digest pref n (sdrop 64 rnd) (attempts + 1))) = Some r"
  shows "worker_outcome digest pref n r"
proof (cases "fromhex pref")
  case (Inl e)
  then have e: "fromhex pref = Inl ValueError" using fromhex_error by blast
  with body show ?thesis by (simp add: Let_def fromhex_append_hex worker_outcome_def)
next
  case (Inr pb)
  have len: "length (stake 64 rnd) = 64" by simp
  show ?thesis
  proof (cases "is_valid_hash (digest (pb @ stake 64 rnd)) n")
    case (Inl e)
    then have e: "is_valid_hash (digest (pb @ stake 64 rnd)) n = Inl IndexError"
      using is_valid_hash_error by blast
    with body Inr have "r = Inl IndexError" by (simp add: Let_def fromhex_append_hex)
    with e Inr len show ?thesis unfolding worker_outcome_def by blast
  next
    case ok: (Inr ok)
    show ?thesis
    proof (cases ok)
      case True
      with body Inr ok have "r = Inr (True, hex (stake 64 rnd))"
        by (simp add: Let_def fromhex_append_hex)
      moreover from ok True have "is_valid_hash (digest (pb @ stake 64 rnd)) n = Inr True"
        by simp
      ultimately show ?thesis using Inr len unfolding worker_outcome_def by blast
    next
      case False
      with body Inr ok have "f digest pref n (sdrop 64 rnd) (attempts + 1) = Some r"
        by (simp add: Let_def fromhex_append_hex)
      then show ?thesis by (rule IH)
    qed
  qed
qed

lemma worker_loop_outcome:
  assumes "worker_loop digest pref n rnd a = Some r"
  shows "worker_outcome digest pref n r"
proof (rule worker_loop.raw_induct [where P = "\<lambda>d p m rnd a r. worker_outcome d p m r"
      and digest = digest and pref = pref and n = n and rnd = rnd and attempts = a and y = r,
      OF _ assms])
  fix f :: "(byte list \<Rightarrow> byte list) \<Rightarrow> string \<Rightarrow> int \<Rightarrow> byte stream \<Rightarrow> nat
     \<Rightarrow> (py_error + bool \<times> string) option"
  fix d p m rnd attempts r
  assume IH: "\<And>d p m rnd a r. f d p m rnd a = Some r \<Longrightarrow> worker_outcome d p m r"
  assume body: "(let suff = hex (stake 64 rnd); combined = p @ suff
      in case fromhex combined of
           Inl e \<Rightarrow> Some (Inl e)
         | Inr bs \<Rightarrow>
             (case is_valid_hash (d bs) m of
                Inl e \<Rightarrow> Some (Inl e)
              | Inr ok \<Rightarrow>
                  if ok then Some (Inr (True, suff))
                  else f d p m (sdrop 64 rnd) (attempts + 1))) = Some r"
  show "worker_outcome d p m r"
    by (rule worker_loop_step [of f d p m r rnd attempts, OF IH body])
qed

lemma worker_loop_first:
  assumes "fromhex pref = Inr pb"
    and "is_valid_hash (digest (pb @ stake 64 rnd)) n = Inr True"
  shows "worker_loop digest pref n rnd a = Some (Inr (True, hex (stake 64 rnd)))"
  using assms by (subst worker_loop.simps) (simp add: fromhex_append_hex Let_def)


lemma length_py_range: "length (py_range k) = nat k"
  by (simp add: py_range_def)

lemma nth_py_range: "i < nat k \<Longrightarrow> py_range k ! i = int i"
  by (simp add: py_range_def)

lemma first_success_Inr:
  "first_success rs = Inr s \<Longrightarrow>
     Inr (True, s) \<in> set rs \<or> (s = [] \<and> (\<forall>r\<in>set rs. \<exists>t. r = Inr (False, t)))"
  by (induction rs rule: first_success.induct) (auto split: if_splits)

lemma hex_length: "length (hex bs) = 2 * length bs"
  by (induction bs) simp_all

lemma hexdigit_in: "d < 16 \<Longrightarrow> hexdigit d \<in> set ''0123456789abcdef''"
  unfolding hexdigit_def by (rule nth_mem) simp

lemma hex_chars: "set (hex bs) \<subseteq> set ''0123456789abcdef''"
proof (induction bs)
  case Nil
  then show ?case by simp
next
  case (Cons b bs)
  have "unat b < 256" using unsigned_less [of b] by simp
  then have "unat b div 16 < 16" "unat b mod 16 < 16" by simp_all
  then have "hexdigit (unat b div 16) \<in> set ''0123456789abcdef''"
    "hexdigit (unat b mod 16) \<in> set ''0123456789abcdef''"
    using hexdigit_in by blast+
  with Cons show ?case by simp
qed

lemma find_suffix_from_worker:
  assumes ret: "find_suffix digest cpu randoms completion pref n task_id = Some (Inr suff)"
    and w: "1 \<le> num_workers cpu"
    and d: "distinct completion"
    and s: "set completion = {..<nat (num_workers cpu)}"
  shows "\<exists>i. 0 \<le> i \<and> i < num_workers cpu \<and>
           worker digest pref n i (randoms i) = Some (Inr (True, suff))"
proof -
  define futures where
    "futures = map (\<lambda>i. worker digest pref n i (randoms i)) (py_range (num_workers cpu))"
  have len: "length futures = nat (num_workers cpu)"
    by (simp add: futures_def length_py_range)
  have nth: "futures ! k = worker digest pref n (int k) (randoms (int k))"
    if "k < nat (num_workers cpu)" for k
    using that by (simp add: futures_def length_py_range nth_py_range)
  from ret have none: "None \<notin> set futures"
    and fs: "first_success (map (\<lambda>k. the (futures ! k)) completion) = Inr suff"
    by (auto simp: find_suffix_def futures_def Let_def split: if_splits)
  have some: "\<exists>r. futures ! k = Some r" if "k < nat (num_workers cpu)" for k
  proof -
    from that len have "futures ! k \<in> set futures" by simp
    with none show ?thesis by (cases "futures ! k") auto
  qed
  have "0 \<in> {..<nat (num_workers cpu)}" using w by simp
  with s have "0 \<in> set completion" by simp
  then have ne: "completion \<noteq> []" by (cases completion) simp_all
  have out: "\<exists>t. x = Inl t \<or> (\<exists>u. x = Inr (True, u))"
    if "x \<in> set (map (\<lambda>k. the (futures ! k)) completion)" for x
  proof -
    from that obtain k where k: "k \<in> set completion" "x = the (futures ! k)" by auto
    with s have kk: "k < nat (num_workers cpu)" by auto
    from some [OF kk] obtain r where r: "futures ! k = Some r" by blast
    with nth [OF kk] have "worker_loop digest pref n (randoms (int k)) 0 = Some r"
      by (simp add: worker_def)
    then have "worker_outcome digest pref n r" by (rule worker_loop_outcome)
    moreover from k r have "x = r" by simp
    ultimately show ?thesis unfolding worker_outcome_def by blast
  qed
  from first_success_Inr [OF fs]
  have "Inr (True, suff) \<in> set (map (\<lambda>k. the (futures ! k)) completion)"
  proof
    assume "Inr (True, suff) \<in> set (map (\<lambda>k. the (futures ! k)) completion)"
    then show ?thesis .
  next
    assume a: "suff = [] \<and> (\<forall>r\<in>set (map (\<lambda>k. the (futures ! k)) completion). \<exists>t. r = Inr (False, t))"
    from ne obtain x where x: "x \<in> set (map (\<lambda>k. the (futures ! k)) completion)"
      by (cases completion) auto
    from a x obtain t where "x = Inr (False, t)" by blast
    with out [OF x] have False by auto
    then show ?thesis ..
  qed
  then obtain k where k: "k \<in> set completion" "the (futures ! k) = Inr (True, suff)" by auto
  with s have kk: "k < nat (num_workers cpu)" by auto
  from some [OF kk] obtain r where r: "futures ! k = Some r" by blast
  with k have "r = Inr (True, suff)" by simp
  with r nth [OF kk]
  have "worker digest pref n (int k) (randoms (int k)) = Some (Inr (True, suff))" by simp
  moreover have "0 \<le> int k \<and> int k < num_workers cpu" using kk by linarith
  ultimately show ?thesis by blast
qed

section \<open>Difficulty beyond the digest\<close>






lemma first_success_Inl:
  "first_success rs = Inl e \<Longrightarrow> Inl e \<in> set rs"
  by (induction rs rule: first_success.induct) (auto split: if_splits)


section \<open>The worker pool\<close>

lemma num_workers_pos_iff: "(1 \<le> num_workers cpu) = (cpu \<noteq> Some 1)"
  by (cases cpu) (auto simp: num_workers_def)

lemma num_workers_le_32: "num_workers cpu \<le> 32"
  by (simp add: num_workers_def)

lemma num_workers_3: "num_workers (Some 3) = 2"
  by (simp add: num_workers_def)


lemma below_2: "{..<nat 2} = {0, 1}"
  by auto

lemma py_range_2: "py_range 2 = [0, 1]"
  by (simp add: py_range_def upto.simps)

lemma replicate_32: "replicate 32 x = x # replicate 31 x"
  using replicate_Suc [of 31 x] by simp

lemma hex_Nil_iff: "(hex bs = []) = (bs = [])"
  by (cases bs) simp_all

lemma fromhex_ab: "fromhex ''ab'' = Inr [171]"
  by (simp add: isspace_def hexval_def)






section \<open>The solver\<close>

text \<open>
  Claim C1. Whenever \<open>find_suffix\<close> returns a suffix for a difficulty \<open>n \<ge> 0\<close> with at
  least one worker launched, the prefix is valid hexadecimal for some bytes \<open>pb\<close>, the
  suffix is the lowercase hexadecimal text (128 digits) of exactly 64 bytes \<open>bs\<close>, and
  every one of the first \<open>n\<close> bits of the digest of \<open>pb @ bs\<close> is zero, bit \<open>k\<close> being bit
  \<open>7 - k mod 8\<close> of byte \<open>k div 8\<close> (most significant first, across byte boundaries).
  The statement holds for every digest function, SHA-256 among them, and needs no upper
  bound on \<open>n\<close>; the completion order is any enumeration of the workers.
\<close>

theorem find_suffix_sound:
  assumes ret: "find_suffix digest cpu randoms completion pref n task_id = Some (Inr suff)"
    and n: "0 \<le> n"
    and w: "1 \<le> num_workers cpu"
    and d: "distinct completion"
    and s: "set completion = {..<nat (num_workers cpu)}"
  shows "\<exists>pb bs. fromhex pref = Inr pb \<and> fromhex suff = Inr bs \<and> suff = hex bs \<and>
           length bs = 64 \<and> length suff = 128 \<and> set suff \<subseteq> set ''0123456789abcdef'' \<and>
           (\<forall>k<nat n. k div 8 < length (digest (pb @ bs)) \<and>
                       \<not> bit (digest (pb @ bs) ! (k div 8)) (7 - k mod 8))"
proof -
  from find_suffix_from_worker [OF ret w d s] obtain i where
    "worker digest pref n i (randoms i) = Some (Inr (True, suff))" by blast
  then have "worker_loop digest pref n (randoms i) 0 = Some (Inr (True, suff))"
    by (simp add: worker_def)
  then have "worker_outcome digest pref n (Inr (True, suff))" by (rule worker_loop_outcome)
  then obtain pb bs where pb: "fromhex pref = Inr pb" and len: "length bs = 64"
    and suff: "suff = hex bs" and ok: "is_valid_hash (digest (pb @ bs)) n = Inr True"
    unfolding worker_outcome_def by auto
  from ok n have "leading_zero_bits (digest (pb @ bs)) (nat n)"
    by (simp add: is_valid_hash_leading_zero_bits)
  then have bits: "\<forall>k<nat n. k div 8 < length (digest (pb @ bs)) \<and>
                       \<not> bit (digest (pb @ bs) ! (k div 8)) (7 - k mod 8)"
    by (simp add: leading_zero_bits_def)
  have "fromhex suff = Inr bs" using suff by (simp add: fromhex_hex)
  moreover have "length suff = 128" using suff len by (simp add: hex_length)
  moreover have "set suff \<subseteq> set ''0123456789abcdef''" using suff hex_chars by blast
  ultimately show ?thesis using pb len suff bits by blast
qed

theorem find_suffix_sound_witness:
  "find_suffix (\<lambda>x. 0 # 31 # replicate 30 255) (Some 3) (\<lambda>i. sconst (of_int i + 7)) [1, 0]
      ''ab'' 11 ''task'' = Some (Inr (hex (stake 64 (sconst 8)))) \<and>
   (0::int) \<le> 11 \<and> 1 \<le> num_workers (Some 3) \<and> distinct [1::nat, 0] \<and>
   set [1::nat, 0] = {..<nat (num_workers (Some 3))} \<and>
   (\<exists>pb bs. fromhex ''ab'' = Inr pb \<and> fromhex (hex (stake 64 (sconst 8))) = Inr bs \<and>
      length bs = 64 \<and>
      (\<forall>k<nat 11. k div 8 < length (0 # 31 # replicate 30 (255::byte)) \<and>
                  \<not> bit ((0 # 31 # replicate 30 (255::byte)) ! (k div 8)) (7 - k mod 8)))"
proof -
  let ?d = "\<lambda>x::byte list. 0 # 31 # replicate 30 (255::byte)"
  let ?r = "\<lambda>i::int. sconst (of_int i + 7 :: byte)"
  have v: "is_valid_hash (?d x) 11 = Inr True" for x
    by (simp add: is_valid_hash_11)
  have wl: "worker ?d ''ab'' 11 i (?r i) = Some (Inr (True, hex (stake 64 (?r i))))" for i
    unfolding worker_def by (rule worker_loop_first [OF fromhex_ab v])
  have ret: "find_suffix ?d (Some 3) ?r [1, 0] ''ab'' 11 ''task''
     = Some (Inr (hex (stake 64 (sconst 8))))"
    unfolding find_suffix_def num_workers_3 py_range_2 by (simp add: wl)
  have w: "1 \<le> num_workers (Some 3)" unfolding num_workers_3 by simp
  have s: "set [1::nat, 0] = {..<nat (num_workers (Some 3))}"
    unfolding num_workers_3 below_2 by auto
  have "\<exists>pb bs. fromhex ''ab'' = Inr pb \<and> fromhex (hex (stake 64 (sconst 8))) = Inr bs \<and>
      length bs = 64 \<and>
      (\<forall>k<nat 11. k div 8 < length (0 # 31 # replicate 30 (255::byte)) \<and>
                  \<not> bit ((0 # 31 # replicate 30 (255::byte)) ! (k div 8)) (7 - k mod 8))"
    using find_suffix_sound [OF ret _ w _ s] by fastforce
  with ret w s show ?thesis by simp
qed



text \<open>
  Claim C9. The result of \<open>find_suffix\<close> is the same for any two values of its
  \<open>task_id\<close> argument when the digest, the processor count, the random streams, the
  completion order, the prefix and the difficulty are the same: the body never reads it.
\<close>

theorem find_suffix_task_id:
  "find_suffix digest cpu randoms completion pref n task_id =
   find_suffix digest cpu randoms completion pref n task_id'"
  by (simp add: find_suffix_def)

text \<open>
  Claim C10. The worker count is 0 exactly when \<^verbatim>\<open>os.cpu_count()\<close> is 1. Then
  \<open>range(num_workers)\<close> is empty, no worker is submitted, and \<open>find_suffix\<close> returns the
  empty string whatever the digest function, the prefix (valid hexadecimal or not) and
  the difficulty are. The empty string is the hexadecimal text of the empty byte sequence
  only, so it is not that of 64 bytes; and it need not meet the difficulty: a digest of 32
  bytes \<open>0xFF\<close> fails the predicate at difficulty 8.
\<close>

theorem find_suffix_no_workers:
  "num_workers (Some 1) = 0 \<and>
   (num_workers cpu \<le> 0) = (cpu = Some 1) \<and>
   py_range (num_workers (Some 1)) = [] \<and>
   find_suffix digest (Some 1) randoms [] pref n task_id = Some (Inr []) \<and>
   (find_suffix digest (Some 1) randoms [] pref n task_id = Some (Inr (hex bs))) = (bs = []) \<and>
   fromhex [] = Inr [] \<and>
   is_valid_hash (replicate 32 255) 8 = Inr False"
proof -
  have a: "num_workers (Some 1) = 0" by (simp add: num_workers_def)
  have b: "(num_workers cpu \<le> 0) = (cpu = Some 1)"
    using num_workers_pos_iff [of cpu] by linarith
  have c: "py_range (num_workers (Some 1)) = []" unfolding a by (simp add: py_range_def)
  have d: "find_suffix digest (Some 1) randoms [] pref n task_id = Some (Inr [])"
    unfolding find_suffix_def c by simp
  have e: "(find_suffix digest (Some 1) randoms [] pref n task_id = Some (Inr (hex bs))) = (bs = [])"
    unfolding d using hex_Nil_iff [of bs] by auto
  have f: "is_valid_hash (replicate 32 255) 8 = Inr False"
    unfolding replicate_32 by (simp add: is_valid_hash_8)
  show ?thesis using a b c d e f by simp
qed

text \<open>
  Claim C4. The code computes \<open>min(32, (os.cpu_count() or 5) - 1)\<close> and applies no floor:
  with one processor the worker count is 0, not 1. It is at least 1 exactly when the
  processor count is not 1, and it never exceeds 32.
\<close>

theorem num_workers_single_cpu:
  "num_workers (Some 1) = 0 \<and> num_workers (Some 1) \<noteq> max 1 (min 32 (1 - 1)) \<and>
   (1 \<le> num_workers cpu) = (cpu \<noteq> Some 1) \<and> num_workers cpu \<le> 32 \<and>
   num_workers (Some (Suc (Suc c))) = min 32 (int (Suc (Suc c)) - 1) \<and>
   num_workers None = 4"
  by (simp add: num_workers_pos_iff num_workers_le_32) (simp add: num_workers_def)


section \<open>Unsatisfiable difficulty\<close>




end
